theory Spec2Isabelle
  imports Complex_Main "HOL-Library.Multiset"
begin

section \<open>Cards and the token palette\<close>

text \<open>
  The type \<^verbatim>\<open>Card\<close> of App.tsx. The field \<^verbatim>\<open>id\<close> is called \<open>card_id\<close> here, since
  \<open>id\<close> is the identity function of HOL. A token (\<^verbatim>\<open>emoji\<close>) is a string; the model
  holds it as its UTF-8 bytes, on which equality agrees with \<^verbatim>\<open>===\<close> of the source.
\<close>

record Card =
  card_id :: nat
  emoji :: string
  flipped :: bool
  matched :: bool

text \<open>The sixteen tokens of \<^verbatim>\<open>emojis\<close>, in the order of the source.\<close>

definition emojis :: "string list" where
  "emojis =
    [[CHR 0xF0, CHR 0x9F, CHR 0x8D, CHR 0x95],
     [CHR 0xF0, CHR 0x9F, CHR 0x8E, CHR 0xAE],
     [CHR 0xF0, CHR 0x9F, CHR 0x9A, CHR 0x80],
     [CHR 0xF0, CHR 0x9F, CHR 0xA4, CHR 0x96],
     [CHR 0xF0, CHR 0x9F, CHR 0x90, CHR 0xB1],
     [CHR 0xF0, CHR 0x9F, CHR 0xA7, CHR 0xA0],
     [CHR 0xE2, CHR 0x9A, CHR 0xA1, CHR 0xEF, CHR 0xB8, CHR 0x8F],
     [CHR 0xF0, CHR 0x9F, CHR 0x8C, CHR 0x88],
     [CHR 0xF0, CHR 0x9F, CHR 0x8D, CHR 0xAA],
     [CHR 0xF0, CHR 0x9F, CHR 0x8E, CHR 0xA7],
     [CHR 0xF0, CHR 0x9F, CHR 0xA7, CHR 0xA9],
     [CHR 0xF0, CHR 0x9F, CHR 0x92, CHR 0x8E],
     [CHR 0xF0, CHR 0x9F, CHR 0x94, CHR 0xA5],
     [CHR 0xF0, CHR 0x9F, CHR 0x8C, CHR 0x99],
     [CHR 0xF0, CHR 0x9F, CHR 0x93, CHR 0x80],
     [CHR 0xF0, CHR 0x9F, CHR 0xAA, CHR 0x84]]"

section \<open>shuffle\<close>

text \<open>
  \<^verbatim>\<open>shuffle\<close> copies its argument (\<^verbatim>\<open>const a = [...arr]\<close>) and then swaps elements of
  the copy in place. To tell the copy from the argument, arrays live in a heap: the
  array at address \<open>p\<close> is \<open>h ! p\<close>, and allocating appends to the heap.

  The \<open>k\<close>-th call of \<^verbatim>\<open>Math.random()\<close> returns \<open>rnd k\<close>, a number that the
  language guarantees to lie in the interval from 0 (included) to 1 (excluded); the
  numbers are taken as reals. One iteration of the loop, for \<open>i = Suc n\<close>, draws
  \<open>j = floor (random * (i + 1))\<close> and assigns \<open>a[i] = old a[j]\<close>, then
  \<open>a[j] = old a[i]\<close>. The loop starts at \<^verbatim>\<open>a.length - 1\<close> and runs while \<open>i > 0\<close>: on
  an empty array the source starts at \<open>-1\<close> and the model at \<open>0\<close>, and neither runs
  an iteration.
\<close>

type_synonym 'a heap = "'a list list"

fun shuffle_loop :: "(nat \<Rightarrow> real) \<Rightarrow> nat \<Rightarrow> 'a heap \<Rightarrow> nat \<Rightarrow> nat \<Rightarrow> 'a heap" where
  "shuffle_loop rnd k h a 0 = h"
| "shuffle_loop rnd k h a (Suc n) =
     (let i = Suc n;
          j = nat \<lfloor>rnd k * real (i + 1)\<rfloor>;
          arr = h ! a
      in shuffle_loop rnd (k + 1) (h[a := arr[i := arr ! j, j := arr ! i]]) a n)"

definition shuffle_heap :: "(nat \<Rightarrow> real) \<Rightarrow> 'a heap \<Rightarrow> nat \<Rightarrow> nat \<times> 'a heap" where
  "shuffle_heap rnd h arr =
     (let a = length h;
          h1 = h @ [h ! arr]
      in (a, shuffle_loop rnd 0 h1 a (length (h1 ! a) - 1)))"

text \<open>The value \<^verbatim>\<open>shuffle\<close> returns for an argument that holds \<open>xs\<close>.\<close>

definition shuffle :: "(nat \<Rightarrow> real) \<Rightarrow> 'a list \<Rightarrow> 'a list" where
  "shuffle rnd xs = (case shuffle_heap rnd [xs] 0 of (a, h) \<Rightarrow> h ! a)"

section \<open>The state of useMemoryDeck\<close>

text \<open>
  The two callbacks that \<^verbatim>\<open>flip\<close> hands to \<^verbatim>\<open>setTimeout\<close>: the one that marks the open
  cards as matched and the one that turns them face down again. A pending timer
  remembers when it was armed, its delay in milliseconds and its callback.
\<close>

datatype resolution = MarkMatched | HideOpen

record timer =
  armed_at :: real
  delay :: nat
  callback :: resolution

text \<open>
  The five \<^verbatim>\<open>useState\<close> cells of the hook, and the timers that \<^verbatim>\<open>setTimeout\<close> has
  armed and that have not fired yet. \<^verbatim>\<open>performance.now()\<close> is a real number of
  milliseconds.
\<close>

record engine =
  deck :: "Card list"
  moves :: nat
  locked :: bool
  startedAt :: "real option"
  finishedAt :: "real option"
  timers :: "timer list"

text \<open>The initial values of the cells, before the mount effect calls \<^verbatim>\<open>reset\<close>.\<close>

definition initial :: engine where
  "initial = \<lparr>deck = [], moves = 0, locked = False, startedAt = None, finishedAt = None,
     timers = []\<rparr>"

text \<open>
  A timestamp cell used as a condition (\<^verbatim>\<open>!startedAt\<close>, \<^verbatim>\<open>finishedAt && startedAt\<close>):
  \<^verbatim>\<open>null\<close> and \<open>0\<close> are falsy.
\<close>

definition truthy :: "real option \<Rightarrow> bool" where
  "truthy v = (case v of None \<Rightarrow> False | Some t \<Rightarrow> t \<noteq> 0)"

section \<open>reset\<close>

text \<open>
  \<^verbatim>\<open>emojis.slice(0, pairs)\<close> for a count \<open>pairs\<close> is \<open>take pairs emojis\<close>; \<^verbatim>\<open>flatMap\<close>
  with the index is a \<open>concat\<close> over \<open>enumerate 0\<close>, and \<open>pair_of\<close> is its callback.
  \<^verbatim>\<open>reset\<close> arms no timer and clears none.
\<close>

definition pair_of :: "nat \<times> string \<Rightarrow> Card list" where
  "pair_of = (\<lambda>(idx, e).
     [\<lparr>card_id = idx * 2, emoji = e, flipped = False, matched = False\<rparr>,
      \<lparr>card_id = idx * 2 + 1, emoji = e, flipped = False, matched = False\<rparr>])"

definition seed :: "nat \<Rightarrow> Card list" where
  "seed pairs = concat (map pair_of (enumerate 0 (take pairs emojis)))"

definition reset :: "nat \<Rightarrow> (nat \<Rightarrow> real) \<Rightarrow> engine \<Rightarrow> engine" where
  "reset pairs rnd s =
     s\<lparr>deck := shuffle rnd (seed pairs), moves := 0, locked := False,
       startedAt := None, finishedAt := None\<rparr>"

section \<open>The completion effect\<close>

text \<open>
  The effect with dependency \<^verbatim>\<open>[deck]\<close> runs after every update that installs a new
  deck array.
\<close>

definition deck_effect :: "real \<Rightarrow> engine \<Rightarrow> engine" where
  "deck_effect now s =
     (if deck s \<noteq> [] \<and> list_all matched (deck s) then s\<lparr>finishedAt := Some now\<rparr> else s)"

section \<open>flip\<close>

text \<open>\<^verbatim>\<open>d[index]\<close>: \<^verbatim>\<open>undefined\<close> (here \<open>None\<close>) outside the array.\<close>

definition at_index :: "'a list \<Rightarrow> int \<Rightarrow> 'a option" where
  "at_index xs i = (if 0 \<le> i \<and> i < int (length xs) then Some (xs ! nat i) else None)"

text \<open>The filter of the updater and of both callbacks: \<^verbatim>\<open>c.flipped && !c.matched\<close>.\<close>

definition is_open :: "Card \<Rightarrow> bool" where
  "is_open c = (flipped c \<and> \<not> matched c)"

text \<open>
  What the updater does when two cards are open: it takes the lock, counts a move and
  arms the timer whose delay and callback depend on the two tokens.
\<close>

definition schedule :: "real \<Rightarrow> Card list \<Rightarrow> engine \<Rightarrow> engine" where
  "schedule now opn s =
     (case opn of
        [a, b] \<Rightarrow>
          s\<lparr>locked := True, moves := moves s + 1,
            timers := timers s @
              [if emoji a = emoji b
               then \<lparr>armed_at = now, delay = 350, callback = MarkMatched\<rparr>
               else \<lparr>armed_at = now, delay = 650, callback = HideOpen\<rparr>]\<rparr>
      | _ \<Rightarrow> s)"

text \<open>
  \<^verbatim>\<open>flip(index)\<close> at time \<open>now\<close>. Where the updater returns \<^verbatim>\<open>prev\<close> the deck cell keeps
  its array, nothing else was set, and the completion effect does not run. The card
  object that the updater mutates is shared with the array it replaces; that array is
  not read again.
\<close>

definition flip :: "int \<Rightarrow> real \<Rightarrow> engine \<Rightarrow> engine" where
  "flip index now s =
     (if locked s then s
      else case at_index (deck s) index of
        None \<Rightarrow> s
      | Some c \<Rightarrow>
          if flipped c \<or> matched c then s
          else
            let s1 = (if \<not> truthy (startedAt s) then s\<lparr>startedAt := Some now\<rparr> else s);
                d = (deck s)[nat index := c\<lparr>flipped := True\<rparr>];
                s2 = schedule now (filter is_open d) s1
            in deck_effect now (s2\<lparr>deck := d\<rparr>))"

section \<open>The resolution timer\<close>

fun resolve :: "resolution \<Rightarrow> Card list \<Rightarrow> Card list" where
  "resolve MarkMatched cur = map (\<lambda>c. if is_open c then c\<lparr>matched := True\<rparr> else c) cur"
| "resolve HideOpen cur = map (\<lambda>c. if is_open c then c\<lparr>flipped := False\<rparr> else c) cur"

text \<open>
  The pending timer number \<open>k\<close> fires at time \<open>now\<close>: its callback replaces the deck
  and releases the lock. Firing a timer that is not pending is not an event of the
  program; the model leaves the state as it is.
\<close>

definition fire :: "nat \<Rightarrow> real \<Rightarrow> engine \<Rightarrow> engine" where
  "fire k now s =
     (if k < length (timers s)
      then deck_effect now
             (s\<lparr>deck := resolve (callback (timers s ! k)) (deck s), locked := False,
                timers := take k (timers s) @ drop (Suc k) (timers s)\<rparr>)
      else s)"

text \<open>
  \<^verbatim>\<open>elapsedMs\<close>: \<^verbatim>\<open>null\<close> (here \<open>None\<close>) unless both timestamps are truthy. The
  timestamps are doubles, and \<^verbatim>\<open>finishedAt - startedAt\<close> is the subtraction of doubles,
  which rounds the exact difference to a double. The model does not compute that
  rounding: the subtraction of doubles is the parameter \<open>sub\<close>, of which nothing is
  assumed. \<^verbatim>\<open>Math.round\<close> of a double \<open>x\<close> is the integer \<open>floor (x + 1/2)\<close>.
\<close>

definition elapsedMs :: "(real \<Rightarrow> real \<Rightarrow> real) \<Rightarrow> engine \<Rightarrow> int option" where
  "elapsedMs sub s =
     (case (finishedAt s, startedAt s) of
        (Some f, Some b) \<Rightarrow> if f \<noteq> 0 \<and> b \<noteq> 0 then Some \<lfloor>sub f b + 1 / 2\<rfloor> else None
      | _ \<Rightarrow> None)"

section \<open>Events\<close>

text \<open>
  The hook is driven by discrete events, each handled to the end (with the render
  that follows it) before the next one: a call of \<^verbatim>\<open>flip\<close>, a pending timer firing,
  and \<^verbatim>\<open>reset\<close> (the Restart button, the mount and every change of \<^verbatim>\<open>pairs\<close>). Each
  event carries the reading of \<^verbatim>\<open>performance.now()\<close> while it is handled; a reset
  carries the pair count and the random numbers it draws. A call of \<^verbatim>\<open>flip\<close> sees the
  lock and the start timestamp of the state it is applied to. The pending timers are
  kept in the order in which they were armed, and \<open>Fire k\<close> fires the one at position
  \<open>k\<close>.
\<close>

datatype event = Flip int real | Fire nat real | Reset nat "nat \<Rightarrow> real" real

fun apply_event :: "event \<Rightarrow> engine \<Rightarrow> engine" where
  "apply_event (Flip index now) s = flip index now s"
| "apply_event (Fire k now) s = fire k now s"
| "apply_event (Reset pairs rnd now) s = deck_effect now (reset pairs rnd s)"

fun exec :: "event list \<Rightarrow> engine \<Rightarrow> engine" where
  "exec [] s = s"
| "exec (e # es) s = exec es (apply_event e s)"

fun is_reset :: "event \<Rightarrow> bool" where
  "is_reset (Reset pairs rnd now) = True"
| "is_reset (Flip index now) = False"
| "is_reset (Fire k now) = False"

fun is_flip :: "event \<Rightarrow> bool" where
  "is_flip (Flip index now) = True"
| "is_flip (Fire k now) = False"
| "is_flip (Reset pairs rnd now) = False"

fun time_of :: "event \<Rightarrow> real" where
  "time_of (Flip index now) = now"
| "time_of (Fire k now) = now"
| "time_of (Reset pairs rnd now) = now"

text \<open>
  A schedule the browser can produce: time does not run backwards, a timer fires
  only when it is pending and its delay has passed, and no pending timer that is due
  earlier is overtaken.
\<close>

definition due :: "timer \<Rightarrow> real" where
  "due t = armed_at t + real (delay t)"

fun enabled :: "event \<Rightarrow> engine \<Rightarrow> bool" where
  "enabled (Fire k now) s =
     (k < length (timers s) \<and> due (timers s ! k) \<le> now \<and>
      list_all (\<lambda>u. due (timers s ! k) \<le> due u) (timers s))"
| "enabled (Flip index now) s = True"
| "enabled (Reset pairs rnd now) s = True"

fun feasible :: "real \<Rightarrow> engine \<Rightarrow> event list \<Rightarrow> bool" where
  "feasible t s [] = True"
| "feasible t s (e # es) =
     (t \<le> time_of e \<and> enabled e s \<and> feasible (time_of e) (apply_event e s) es)"

text \<open>What the language guarantees of \<^verbatim>\<open>Math.random()\<close>.\<close>

definition unit_draws :: "(nat \<Rightarrow> real) \<Rightarrow> bool" where
  "unit_draws rnd = (\<forall>k. 0 \<le> rnd k \<and> rnd k < 1)"

text \<open>The random source that always returns 0, used in the worked examples.\<close>

definition zeros :: "nat \<Rightarrow> real" where
  "zeros k = 0"

text \<open>
  The hook after its mount with \<open>pairs = 6\<close> at time 1, with the random source
  \<open>zeros\<close>: the cards lie in the order of the ids 1, 2, ..., 11, 0, so that the
  tokens are \<open>t0 t1 t1 t2 t2 t3 t3 t4 t4 t5 t5 t0\<close>.
\<close>

definition mounted :: engine where
  "mounted = apply_event (Reset 6 zeros 1) initial"

text \<open>
  The four reasons for which \<^verbatim>\<open>flip(index)\<close> ignores the call: the lock is held, the
  index is outside the deck, the card is face up already, the card is matched already.
\<close>

definition rejected :: "int \<Rightarrow> engine \<Rightarrow> bool" where
  "rejected index s =
     (locked s \<or> index < 0 \<or> int (length (deck s)) \<le> index \<or>
      flipped (deck s ! nat index) \<or> matched (deck s ! nat index))"

text \<open>
  An event the program can receive: the random numbers of a reset are those that
  \<^verbatim>\<open>Math.random()\<close> can return.
\<close>

fun well_formed :: "event \<Rightarrow> bool" where
  "well_formed (Reset pairs rnd now) = unit_draws rnd"
| "well_formed (Flip index now) = True"
| "well_formed (Fire k now) = True"

text \<open>
  A run in which a reset overtakes a pending timer: two cards with different tokens
  are opened at times 2 and 3, the deck is reset at time 100, and one card of the new
  deck is opened at time 200. The timer armed at time 3 is due at 653.
\<close>

definition stale_run :: "event list" where
  "stale_run = [Reset 6 zeros 1, Flip 0 2, Flip 1 3, Reset 6 zeros 100, Flip 0 200]"

text \<open>
  A run in which a timer is left over when a pair is opened: a matching pair is opened
  at times 2 and 3, which arms a timer due at 353; the deck is reset at time 4; in the
  new deck two cards with different tokens are opened at times 100 and 200, which
  arms a timer due at 850.
\<close>

definition leftover_run :: "event list" where
  "leftover_run =
     [Reset 6 zeros 1, Flip 1 2, Flip 2 3, Reset 6 zeros 4, Flip 0 100, Flip 1 200]"

text \<open>
  The invariants of the deck: at most two cards are open, and two only while the lock
  is held; a matched card is face up.
\<close>

definition lock_inv :: "engine \<Rightarrow> bool" where
  "lock_inv s =
     (length (filter is_open (deck s)) \<le> 2 \<and>
      (\<not> locked s \<longrightarrow> length (filter is_open (deck s)) \<le> 1))"

definition face_inv :: "engine \<Rightarrow> bool" where
  "face_inv s = list_all (\<lambda>c. matched c \<longrightarrow> flipped c) (deck s)"

section \<open>The pair count read from the page address\<close>

text \<open>
  A JavaScript number is a finite number (taken as a real), an infinity or \<^verbatim>\<open>NaN\<close>.
  \<^verbatim>\<open>params.get("pairs")\<close> is \<^verbatim>\<open>null\<close> when the address has no such parameter, and a
  string otherwise. The source tests the string for emptiness and converts it with
  \<^verbatim>\<open>Number()\<close>, nothing else; the model holds a string that is not empty as the number
  that \<^verbatim>\<open>Number()\<close> makes of it, which is \<^verbatim>\<open>NaN\<close> for a string that is not numeric.
  \<^verbatim>\<open>Number(null)\<close> and \<^verbatim>\<open>Number("")\<close> are 0.
\<close>

datatype number = Num real | Infinity | NegInfinity | NaN

datatype query_value = Null | EmptyString | Text number

fun Number :: "query_value \<Rightarrow> number" where
  "Number Null = Num 0"
| "Number EmptyString = Num 0"
| "Number (Text n) = n"

text \<open>\<^verbatim>\<open>Number.isFinite\<close>, \<^verbatim>\<open>>=\<close> and \<^verbatim>\<open><=\<close>; a comparison with \<^verbatim>\<open>NaN\<close> is false.\<close>

fun isFinite :: "number \<Rightarrow> bool" where
  "isFinite (Num x) = True"
| "isFinite Infinity = False"
| "isFinite NegInfinity = False"
| "isFinite NaN = False"

fun ge :: "number \<Rightarrow> real \<Rightarrow> bool" where
  "ge (Num x) c = (c \<le> x)"
| "ge Infinity c = True"
| "ge NegInfinity c = False"
| "ge NaN c = False"

fun le :: "number \<Rightarrow> real \<Rightarrow> bool" where
  "le (Num x) c = (x \<le> c)"
| "le Infinity c = False"
| "le NegInfinity c = True"
| "le NaN c = False"

text \<open>\<^verbatim>\<open>useQueryPairs\<close>, as in the first variant of App.tsx and in part_000.\<close>

definition useQueryPairs :: "query_value \<Rightarrow> number" where
  "useQueryPairs raw =
     (let n = Number raw in if isFinite n \<and> ge n 4 \<and> le n 24 then n else Num 8)"

text \<open>
  \<^verbatim>\<open>usePairsParam\<close>, as in the second variant of App.tsx: the \<^verbatim>\<open>parse\<close> function it
  hands to \<^verbatim>\<open>useSearchParamState\<close>, and \<^verbatim>\<open>readValue\<close> of that hook in a browser. In
  \<^verbatim>\<open>parse\<close>, \<^verbatim>\<open>!value\<close> holds for \<^verbatim>\<open>null\<close> and for the empty string.
\<close>

definition MEMORY_PAIR_OPTIONS :: "real list" where
  "MEMORY_PAIR_OPTIONS = [6, 8, 10, 12]"

fun includes_value :: "real list \<Rightarrow> number \<Rightarrow> bool" where
  "includes_value opts (Num x) = (x \<in> set opts)"
| "includes_value opts Infinity = False"
| "includes_value opts NegInfinity = False"
| "includes_value opts NaN = False"

fun parse_pairs :: "query_value \<Rightarrow> number option" where
  "parse_pairs Null = None"
| "parse_pairs EmptyString = None"
| "parse_pairs (Text numeric) =
     (if includes_value MEMORY_PAIR_OPTIONS numeric then Some numeric else None)"

definition readValue :: "(query_value \<Rightarrow> 'a option) \<Rightarrow> 'a \<Rightarrow> query_value \<Rightarrow> 'a" where
  "readValue parse defaultValue raw =
     (case parse raw of None \<Rightarrow> defaultValue | Some parsed \<Rightarrow> parsed)"

definition usePairsParam :: "query_value \<Rightarrow> number" where
  "usePairsParam raw = readValue parse_pairs (Num 8) raw"

section \<open>Completion\<close>

text \<open>The condition of the completion effect: the deck is not empty and every card is matched.\<close>

definition complete :: "Card list \<Rightarrow> bool" where
  "complete d = (d \<noteq> [] \<and> list_all matched d)"

text \<open>
  A run in which the deck is reset while the timer of a matching pair is pending, and
  the new deck is then played at once: each pair is matched by the timer that was
  armed for the pair before it. When the last pair is matched at time 1850, the timer
  armed for it at time 1800 is still pending.
\<close>

definition quick_run :: "event list" where
  "quick_run =
     [Reset 6 zeros 1, Flip 1 2, Flip 2 3, Reset 6 zeros 4,
      Flip 1 (401 / 2), Flip 2 300, Fire 0 353,
      Flip 3 450, Flip 4 600, Fire 0 650,
      Flip 5 700, Flip 6 900, Fire 0 950,
      Flip 7 1000, Flip 8 1200, Fire 0 1250,
      Flip 9 1300, Flip 10 1500, Fire 0 1550,
      Flip 0 1600, Flip 11 1800, Fire 0 1850]"

text \<open>A game of six pairs played without a reset, up to the last timer, which is due at 3050.\<close>

definition play :: "event list" where
  "play =
     [Reset 6 zeros 1,
      Flip 1 100, Flip 2 200, Fire 0 550,
      Flip 3 600, Flip 4 700, Fire 0 1050,
      Flip 5 1100, Flip 6 1200, Fire 0 1550,
      Flip 7 1600, Flip 8 1700, Fire 0 2050,
      Flip 9 2100, Flip 10 2200, Fire 0 2550,
      Flip 0 2600, Flip 11 2700]"

text \<open>
  Invariants: the end timestamp is set only on a complete deck; when all event times
  are positive, the start timestamp is set as soon as a card is face up and the end
  timestamp as soon as the deck is complete.
\<close>

definition fin_inv :: "engine \<Rightarrow> bool" where
  "fin_inv s = (finishedAt s \<noteq> None \<longrightarrow> complete (deck s))"

definition clock_inv :: "engine \<Rightarrow> bool" where
  "clock_inv s =
     ((list_ex flipped (deck s) \<longrightarrow> truthy (startedAt s)) \<and>
      (complete (deck s) \<longrightarrow> truthy (finishedAt s)))"

section \<open>Properties of shuffle\<close>

lemma draw_index_le:
  assumes "0 \<le> r" "r < 1"
  shows "nat \<lfloor>r * real (Suc n + 1)\<rfloor> \<le> Suc n"
proof -
  have "r * real (Suc n + 1) < real (Suc n + 1)"
    using assms by simp
  then have "\<lfloor>r * real (Suc n + 1)\<rfloor> < int (Suc n + 1)"
    by (simp add: floor_less_iff)
  then show ?thesis by linarith
qed

lemma shuffle_loop_frame:
  assumes "unit_draws rnd"
  shows "a < length h \<Longrightarrow> n < length (h ! a) \<or> n = 0 \<Longrightarrow>
     length (shuffle_loop rnd k h a n) = length h \<and>
     (\<forall>b. b \<noteq> a \<longrightarrow> shuffle_loop rnd k h a n ! b = h ! b) \<and>
     mset (shuffle_loop rnd k h a n ! a) = mset (h ! a)"
proof (induction n arbitrary: h k)
  case 0
  then show ?case by simp
next
  case (Suc n)
  define arr where "arr = h ! a"
  define j where "j = nat \<lfloor>rnd k * real (Suc n + 1)\<rfloor>"
  define h' where "h' = h[a := arr[Suc n := arr ! j, j := arr ! Suc n]]"
  have i: "Suc n < length arr"
    using Suc.prems by (simp add: arr_def)
  have "j \<le> Suc n"
    unfolding j_def using assms draw_index_le [of "rnd k" n] by (simp add: unit_draws_def)
  then have j: "j < length arr"
    using i by simp
  have step: "shuffle_loop rnd k h a (Suc n) = shuffle_loop rnd (k + 1) h' a n"
    by (simp add: h'_def arr_def j_def Let_def)
  have a': "a < length h'"
    using Suc.prems by (simp add: h'_def)
  have cell: "h' ! a = arr[Suc n := arr ! j, j := arr ! Suc n]"
    using Suc.prems by (simp add: h'_def)
  have n': "n < length (h' ! a) \<or> n = 0"
    using i by (simp add: cell)
  have perm: "mset (h' ! a) = mset (h ! a)"
    using mset_swap [OF j i] by (simp add: cell arr_def)
  have other: "\<forall>b. b \<noteq> a \<longrightarrow> h' ! b = h ! b"
    by (simp add: h'_def)
  have len: "length h' = length h"
    by (simp add: h'_def)
  from Suc.IH [OF a' n', of "k + 1"] show ?case
    unfolding step using perm other len by simp
qed

lemma shuffle_heap_frame:
  assumes "unit_draws rnd" "arr < length h"
  shows "fst (shuffle_heap rnd h arr) = length h \<and>
     length (snd (shuffle_heap rnd h arr)) = Suc (length h) \<and>
     (\<forall>b < length h. snd (shuffle_heap rnd h arr) ! b = h ! b) \<and>
     mset (snd (shuffle_heap rnd h arr) ! length h) = mset (h ! arr)"
proof -
  define h1 where "h1 = h @ [h ! arr]"
  define n where "n = length (h1 ! length h) - 1"
  have a: "length h < length h1" by (simp add: h1_def)
  have n: "n < length (h1 ! length h) \<or> n = 0" by (auto simp: n_def)
  have res: "shuffle_heap rnd h arr = (length h, shuffle_loop rnd 0 h1 (length h) n)"
    by (simp add: shuffle_heap_def Let_def h1_def n_def)
  have old: "\<forall>b < length h. h1 ! b = h ! b"
    by (simp add: h1_def nth_append)
  have new: "h1 ! length h = h ! arr"
    by (simp add: h1_def)
  from shuffle_loop_frame [OF assms(1) a n, of 0] show ?thesis
    unfolding res using old new by (simp add: h1_def)
qed

lemma mset_shuffle: "unit_draws rnd \<Longrightarrow> mset (shuffle rnd xs) = mset xs"
  using shuffle_heap_frame [of rnd 0 "[xs]"] by (simp add: shuffle_def split_beta)

lemma unit_draws_zeros: "unit_draws zeros" by (simp add: unit_draws_def zeros_def)

text \<open>
  Claim C10. For every array \<open>arr\<close> of a heap \<open>h\<close>, \<^verbatim>\<open>shuffle\<close> returns a new array
  \<open>a\<close> of the same length as the argument and with the same elements in the same
  multiplicities, and it leaves the argument, and every other array that existed
  before the call, as it was.
\<close>

theorem shuffle_permutes_copy:
  assumes "unit_draws rnd" and "arr < length h"
  shows "case shuffle_heap rnd h arr of (a, h') \<Rightarrow>
     a \<noteq> arr \<and> h' ! arr = h ! arr \<and> (\<forall>b < length h. h' ! b = h ! b) \<and>
     length (h' ! a) = length (h ! arr) \<and> mset (h' ! a) = mset (h ! arr)"
proof -
  obtain a h' where r: "shuffle_heap rnd h arr = (a, h')" by (cases "shuffle_heap rnd h arr")
  from shuffle_heap_frame [OF assms] r have
    "a = length h" "\<forall>b < length h. h' ! b = h ! b" "mset (h' ! a) = mset (h ! arr)"
    by simp_all
  moreover from this have "length (h' ! a) = length (h ! arr)"
    using mset_eq_length by blast
  ultimately show ?thesis using assms(2) r by auto
qed

theorem shuffle_permutes_copy_witness:
  "unit_draws zeros \<and> (0::nat) < length [[10, 20, 30 :: nat]] \<and>
   shuffle_heap zeros [[10, 20, 30 :: nat]] 0 = (1, [[10, 20, 30], [20, 30, 10]])"
  using shuffle_permutes_copy [OF unit_draws_zeros, of 0 "[[10, 20, 30 :: nat]]"]
  by (simp add: unit_draws_zeros shuffle_heap_def zeros_def numeral_eq_Suc)

section \<open>Properties of reset\<close>

lemma length_emojis: "length emojis = 16"
  by (simp add: emojis_def)

lemma distinct_emojis: "distinct emojis"
  by (simp add: emojis_def)

lemma ids_pairs:
  "map card_id (concat (map pair_of (enumerate n xs))) = [2 * n ..< 2 * (n + length xs)]"
proof (induction xs arbitrary: n)
  case Nil
  then show ?case by simp
next
  case (Cons x xs)
  have "[2 * n ..< 2 * (n + length (x # xs))] = 2 * n # [Suc (2 * n) ..< 2 * (n + length (x # xs))]"
    by (rule upt_conv_Cons) simp
  also have "[Suc (2 * n) ..< 2 * (n + length (x # xs))] = Suc (2 * n) # [Suc (Suc (2 * n)) ..< 2 * (n + length (x # xs))]"
    by (rule upt_conv_Cons) simp
  finally have "[2 * n ..< 2 * (n + length (x # xs))] = 2 * n # Suc (2 * n) # [2 * Suc n ..< 2 * (Suc n + length xs)]"
    by simp
  then show ?case using Cons.IH [of "Suc n"]
    by (simp add: pair_of_def)
qed

lemma tokens_pairs:
  "map emoji (concat (map pair_of (enumerate n xs))) = concat (map (\<lambda>e. [e, e]) xs)"
  by (induction xs arbitrary: n) (simp_all add: pair_of_def)

lemma flags_pairs:
  "c \<in> set (concat (map pair_of (enumerate n xs))) \<Longrightarrow> \<not> flipped c \<and> \<not> matched c"
  by (induction xs arbitrary: n) (auto simp: pair_of_def)

lemma count_doubled:
  "distinct xs \<Longrightarrow> e \<in> set xs \<Longrightarrow> length (filter (\<lambda>t. t = e) (concat (map (\<lambda>e. [e, e]) xs))) = 2"
proof (induction xs)
  case Nil
  then show ?case by simp
next
  case (Cons x xs)
  have none: "x \<notin> set xs \<Longrightarrow> filter (\<lambda>t. t = x) (concat (map (\<lambda>e. [e, e]) xs)) = []"
    by (auto simp: filter_empty_conv)
  show ?case
  proof (cases "e = x")
    case True
    then show ?thesis using Cons.prems none by simp
  next
    case False
    then show ?thesis using Cons by auto
  qed
qed

lemma length_seed: "length (seed p) = 2 * min p 16"
proof -
  have "length (seed p) = length (map card_id (seed p))" by simp
  also have "\<dots> = 2 * length (take p emojis)"
    unfolding seed_def ids_pairs by simp
  finally show ?thesis by (simp add: length_emojis min.commute)
qed

lemma seed_props:
  "distinct (map card_id (seed p))"
  "\<forall>c \<in> set (seed p). \<not> flipped c \<and> \<not> matched c"
  "\<forall>e \<in> set (take p emojis). length (filter (\<lambda>c. emoji c = e) (seed p)) = 2"
proof -
  show "distinct (map card_id (seed p))"
    unfolding seed_def ids_pairs by simp
  show "\<forall>c \<in> set (seed p). \<not> flipped c \<and> \<not> matched c"
    unfolding seed_def using flags_pairs by blast
  show "\<forall>e \<in> set (take p emojis). length (filter (\<lambda>c. emoji c = e) (seed p)) = 2"
  proof
    fix e assume e: "e \<in> set (take p emojis)"
    have "length (filter (\<lambda>c. emoji c = e) (seed p)) = length (filter (\<lambda>t. t = e) (map emoji (seed p)))"
      by (simp add: filter_map comp_def)
    also have "\<dots> = 2"
      unfolding seed_def tokens_pairs
      using count_doubled [OF _ e] distinct_emojis by simp
    finally show "length (filter (\<lambda>c. emoji c = e) (seed p)) = 2" .
  qed
qed

lemma deck_reset: "deck (reset p rnd s) = shuffle rnd (seed p)"
  by (simp add: reset_def)

lemma length_filter_mset: "mset xs = mset ys \<Longrightarrow> length (filter P xs) = length (filter P ys)"
  by (metis mset_filter size_mset)

text \<open>
  Claim C3. For every supported pair count \<open>p\<close> (6, 8, 10 or 12), the deck that
  \<^verbatim>\<open>reset\<close> installs has \<open>2p\<close> cards; the first \<open>p\<close> tokens of the palette are \<open>p\<close>
  distinct tokens and each of them is on exactly two cards; the card ids are pairwise
  distinct; every card is face down and unmatched. The palette is the constant
  \<open>emojis\<close>, which \<^verbatim>\<open>reset\<close> reads through \<^verbatim>\<open>slice\<close> only.
\<close>

theorem reset_generates_deck:
  assumes "unit_draws rnd" and "p \<in> {6, 8, 10, 12}"
  shows "length (deck (reset p rnd s)) = 2 * p \<and>
     length (take p emojis) = p \<and> distinct (take p emojis) \<and>
     (\<forall>e \<in> set (take p emojis). length (filter (\<lambda>c. emoji c = e) (deck (reset p rnd s))) = 2) \<and>
     distinct (map card_id (deck (reset p rnd s))) \<and>
     (\<forall>c \<in> set (deck (reset p rnd s)). \<not> flipped c \<and> \<not> matched c)"
proof -
  have perm: "mset (deck (reset p rnd s)) = mset (seed p)"
    using assms(1) by (simp add: deck_reset mset_shuffle)
  have p: "p \<le> 16" using assms(2) by auto
  have "length (deck (reset p rnd s)) = length (seed p)"
    using perm by (rule mset_eq_length)
  then have len: "length (deck (reset p rnd s)) = 2 * p"
    using p by (simp add: length_seed)
  have pal: "length (take p emojis) = p \<and> distinct (take p emojis)"
    using p by (simp add: length_emojis distinct_emojis)
  have twice: "\<forall>e \<in> set (take p emojis). length (filter (\<lambda>c. emoji c = e) (deck (reset p rnd s))) = 2"
    using seed_props(3) [of p] length_filter_mset [OF perm] by simp
  have "mset (map card_id (deck (reset p rnd s))) = mset (map card_id (seed p))"
    using perm by (metis mset_map)
  then have ids: "distinct (map card_id (deck (reset p rnd s)))"
    using seed_props(1) [of p] mset_eq_imp_distinct_iff by blast
  have "set (deck (reset p rnd s)) = set (seed p)"
    using perm by (rule mset_eq_setD)
  then have down: "\<forall>c \<in> set (deck (reset p rnd s)). \<not> flipped c \<and> \<not> matched c"
    using seed_props(2) [of p] by simp
  from len pal twice ids down show ?thesis by simp
qed

theorem reset_generates_deck_witness:
  "unit_draws zeros \<and> (6::nat) \<in> {6, 8, 10, 12} \<and>
   length (deck (reset 6 zeros initial)) = 12 \<and>
   map card_id (deck (reset 6 zeros initial)) = [1, 2, 3, 4, 5, 6, 7, 8, 9, 10, 11, 0] \<and>
   distinct (map card_id (deck (reset 6 zeros initial)))"
proof -
  have six: "(6::nat) \<in> {6, 8, 10, 12}" by simp
  have ids: "map card_id (deck (reset 6 zeros initial)) = [1, 2, 3, 4, 5, 6, 7, 8, 9, 10, 11, 0]"
    by code_simp
  show ?thesis
    using reset_generates_deck [OF unit_draws_zeros six, of initial] ids six unit_draws_zeros
    by simp
qed

section \<open>Properties of flip and of the timer\<close>

lemma deck_effect_fields [simp]:
  "deck (deck_effect now s) = deck s"
  "moves (deck_effect now s) = moves s"
  "locked (deck_effect now s) = locked s"
  "startedAt (deck_effect now s) = startedAt s"
  "timers (deck_effect now s) = timers s"
  by (simp_all add: deck_effect_def)

lemma schedule_fields [simp]:
  "deck (schedule now opn s) = deck s"
  "startedAt (schedule now opn s) = startedAt s"
  "finishedAt (schedule now opn s) = finishedAt s"
  by (simp_all add: schedule_def split: list.splits)

lemma flip_rejected: "rejected index s \<Longrightarrow> flip index now s = s"
  by (auto simp: rejected_def flip_def at_index_def)

lemma flip_accepted:
  assumes "\<not> rejected index s"
  shows "flip index now s =
     deck_effect now
       ((schedule now (filter is_open ((deck s)[nat index := (deck s ! nat index)\<lparr>flipped := True\<rparr>]))
          (if \<not> truthy (startedAt s) then s\<lparr>startedAt := Some now\<rparr> else s))
        \<lparr>deck := (deck s)[nat index := (deck s ! nat index)\<lparr>flipped := True\<rparr>]\<rparr>)"
  using assms by (simp add: rejected_def flip_def at_index_def Let_def)

text \<open>
  Claim C6. \<^verbatim>\<open>flip(index)\<close> returns the state as it was (deck, move counter, lock, both
  timestamps and pending timers) whenever the lock is held, the index is out of range,
  or the card is face up or matched already; the source has no \<^verbatim>\<open>throw\<close> on these
  paths, and \<open>flip\<close> is a total function without an error result. In every other case
  the new deck is the old one with the card at \<open>index\<close> turned face up and nothing
  else changed.
\<close>

theorem flip_noop_or_opens:
  "(rejected index s \<longrightarrow> flip index now s = s) \<and>
   (\<not> rejected index s \<longrightarrow>
      deck (flip index now s) = (deck s)[nat index := (deck s ! nat index)\<lparr>flipped := True\<rparr>])"
  by (simp add: flip_rejected flip_accepted)


lemma schedule_moves: "moves (schedule now opn s) = (if length opn = 2 then moves s + 1 else moves s)"
  by (simp add: schedule_def split: list.splits)

lemma schedule_locked:
  "locked (schedule now opn s) = (if length opn = 2 then True else locked s)"
  by (simp add: schedule_def split: list.splits)

lemma fire_moves: "moves (fire k now s) = moves s"
  by (simp add: fire_def)

text \<open>
  Claim C5. A flip that is accepted and leaves two cards open adds exactly one to the
  move counter. A flip that is accepted and leaves another number of cards open (the
  first card of a pair), a rejected flip and a timer firing leave the counter as it
  was.
\<close>

theorem moves_count_pair_reveals:
  "(\<not> rejected index s \<and> length (filter is_open (deck (flip index now s))) = 2 \<longrightarrow>
      moves (flip index now s) = moves s + 1) \<and>
   (\<not> rejected index s \<and> length (filter is_open (deck (flip index now s))) \<noteq> 2 \<longrightarrow>
      moves (flip index now s) = moves s) \<and>
   (rejected index s \<longrightarrow> moves (flip index now s) = moves s) \<and>
   moves (fire k later s) = moves s"
proof -
  have "moves (flip index now s) = moves s" if "rejected index s"
    using that by (simp add: flip_rejected)
  moreover have "moves (flip index now s) =
      (if length (filter is_open (deck (flip index now s))) = 2 then moves s + 1 else moves s)"
    if "\<not> rejected index s"
    using that by (simp add: flip_accepted schedule_moves)
  ultimately show ?thesis by (simp add: fire_moves)
qed

lemma sole_open_index:
  assumes "length (filter P xs) = 1" "j < length xs" "P (xs ! j)"
  shows "{k. k < length xs \<and> P (xs ! k)} = {j}"
proof -
  have "card {k. k < length xs \<and> P (xs ! k)} = 1"
    using assms(1) by (simp add: length_filter_conv_card)
  then obtain m where "{k. k < length xs \<and> P (xs ! k)} = {m}"
    by (auto simp: card_1_singleton_iff)
  moreover have "j \<in> {k. k < length xs \<and> P (xs ! k)}"
    using assms by simp
  ultimately show ?thesis by auto
qed

lemma open_indices_after_flip:
  assumes "i < length xs" "\<not> P (xs ! i)" "j < length xs" "P (xs ! j)"
    "length (filter P xs) = 1" "P c"
  shows "{k. k < length (xs[i := c]) \<and> P (xs[i := c] ! k)} = {i, j}"
proof -
  have ij: "i \<noteq> j" using assms by auto
  have sole: "{k. k < length xs \<and> P (xs ! k)} = {j}"
    using assms by (intro sole_open_index)
  show ?thesis
  proof (intro set_eqI iffI)
    fix k assume "k \<in> {k. k < length (xs[i := c]) \<and> P (xs[i := c] ! k)}"
    then have "k = i \<or> k \<in> {k. k < length xs \<and> P (xs ! k)}"
      by (cases "k = i") auto
    then show "k \<in> {i, j}" unfolding sole by auto
  next
    fix k assume "k \<in> {i, j}"
    then show "k \<in> {k. k < length (xs[i := c]) \<and> P (xs[i := c] ! k)}"
      using assms ij by auto
  qed
qed

lemma pair_after_flip:
  assumes "i < length xs" "\<not> P (xs ! i)" "j < length xs" "P (xs ! j)"
    "length (filter P xs) = 1" "P c"
  shows "\<exists>a b. filter P (xs[i := c]) = [a, b] \<and> (a = c \<and> b = xs ! j \<or> a = xs ! j \<and> b = c)"
proof -
  have ij: "i \<noteq> j" using assms by auto
  note idx = open_indices_after_flip [OF assms]
  have "length (filter P (xs[i := c])) = card {i, j}"
    unfolding length_filter_conv_card idx ..
  then have "length (filter P (xs[i := c])) = 2"
    using ij by simp
  then obtain a b where ab: "filter P (xs[i := c]) = [a, b]"
    by (auto simp: length_Suc_conv numeral_2_eq_2)
  have "set (filter P (xs[i := c])) = (\<lambda>k. xs[i := c] ! k) ` {k. k < length (xs[i := c]) \<and> P (xs[i := c] ! k)}"
    by (auto simp: in_set_conv_nth)
  also have "\<dots> = {c, xs ! j}"
    unfolding idx using assms ij by simp
  finally have "{a, b} = {c, xs ! j}"
    using ab by simp
  then have "a = c \<and> b = xs ! j \<or> a = xs ! j \<and> b = c"
    by (simp add: doubleton_eq_iff)
  with ab show ?thesis by blast
qed

lemma resolve_two:
  assumes "i < length xs" "j < length xs" "{k. k < length xs \<and> is_open (xs ! k)} = {i, j}"
  shows "map (\<lambda>c. if is_open c then f c else c) xs = xs[i := f (xs ! i), j := f (xs ! j)]"
proof (rule nth_equalityI)
  show "length (map (\<lambda>c. if is_open c then f c else c) xs) = length (xs[i := f (xs ! i), j := f (xs ! j)])"
    by simp
next
  fix k assume "k < length (map (\<lambda>c. if is_open c then f c else c) xs)"
  then have k: "k < length xs" by simp
  have opn: "is_open (xs ! k) \<longleftrightarrow> k = i \<or> k = j"
    using assms(3) k by auto
  show "map (\<lambda>c. if is_open c then f c else c) xs ! k = xs[i := f (xs ! i), j := f (xs ! j)] ! k"
    using k assms(1,2) opn by (auto simp: nth_list_update)
qed


lemma schedule_pair:
  "schedule now [a, b] s =
     s\<lparr>locked := True, moves := moves s + 1,
       timers := timers s @
         [if emoji a = emoji b
          then \<lparr>armed_at = now, delay = 350, callback = MarkMatched\<rparr>
          else \<lparr>armed_at = now, delay = 650, callback = HideOpen\<rparr>]\<rparr>"
  by (simp add: schedule_def)

lemma locked_ignores_flips: "locked s \<Longrightarrow> list_all is_flip fs \<Longrightarrow> exec fs s = s"
proof (induction fs)
  case Nil
  then show ?case by simp
next
  case (Cons e fs)
  then obtain index now where "e = Flip index now"
    by (cases e) simp_all
  then have "apply_event e s = s"
    using Cons.prems(1) by (simp add: flip_rejected rejected_def)
  then show ?case using Cons by simp
qed

text \<open>
  Claim C1 says that the scheduled resolution gives a pending pair its outcome
  whenever two cards are pending. A timer left pending by a reset resolves the pair
  first: in \<open>leftover_run\<close>, a schedule the browser can produce, cards 0 and 1 carry
  different tokens and are open; the timer of 350 ms that was armed before the reset
  fires at 353 and marks them matched, and when the timer of 650 ms armed for them
  fires at 850 no card is open any more, so that both cards stay matched and face up.
\<close>

theorem leftover_timer_counterexample:
  "feasible 0 initial (leftover_run @ [Fire 0 353, Fire 0 850]) \<and>
   emoji (deck (exec leftover_run initial) ! 0) \<noteq> emoji (deck (exec leftover_run initial) ! 1) \<and>
   map is_open (deck (exec leftover_run initial)) =
     [True, True, False, False, False, False, False, False, False, False, False, False] \<and>
   timers (exec leftover_run initial) =
     [\<lparr>armed_at = 3, delay = 350, callback = MarkMatched\<rparr>,
      \<lparr>armed_at = 200, delay = 650, callback = HideOpen\<rparr>] \<and>
   timers (exec (leftover_run @ [Fire 0 353]) initial) =
     [\<lparr>armed_at = 200, delay = 650, callback = HideOpen\<rparr>] \<and>
   map matched (deck (exec (leftover_run @ [Fire 0 353, Fire 0 850]) initial)) =
     [True, True, False, False, False, False, False, False, False, False, False, False] \<and>
   map flipped (deck (exec (leftover_run @ [Fire 0 353, Fire 0 850]) initial)) =
     [True, True, False, False, False, False, False, False, False, False, False, False]"
proof -
  have a: "feasible 0 initial (leftover_run @ [Fire 0 353, Fire 0 850])"
    unfolding leftover_run_def by code_simp
  have b: "emoji (deck (exec leftover_run initial) ! 0) \<noteq> emoji (deck (exec leftover_run initial) ! 1)"
    unfolding leftover_run_def by code_simp
  have c: "map is_open (deck (exec leftover_run initial)) =
     [True, True, False, False, False, False, False, False, False, False, False, False]"
    unfolding leftover_run_def by code_simp
  have d: "timers (exec leftover_run initial) =
     [\<lparr>armed_at = 3, delay = 350, callback = MarkMatched\<rparr>,
      \<lparr>armed_at = 200, delay = 650, callback = HideOpen\<rparr>]"
    unfolding leftover_run_def by code_simp
  have e: "timers (exec (leftover_run @ [Fire 0 353]) initial) =
     [\<lparr>armed_at = 200, delay = 650, callback = HideOpen\<rparr>]"
    unfolding leftover_run_def by code_simp
  have f: "map matched (deck (exec (leftover_run @ [Fire 0 353, Fire 0 850]) initial)) =
     [True, True, False, False, False, False, False, False, False, False, False, False]"
    unfolding leftover_run_def by code_simp
  have g: "map flipped (deck (exec (leftover_run @ [Fire 0 353, Fire 0 850]) initial)) =
     [True, True, False, False, False, False, False, False, False, False, False, False]"
    unfolding leftover_run_def by code_simp
  from a b c d e f g show ?thesis by (intro conjI)
qed

text \<open>
  Claim C1, amended. Let card \<open>j\<close> be the only open card and let \<^verbatim>\<open>flip(i)\<close> be
  accepted, so that two cards are open. Then the lock is taken and one timer is armed:
  with delay 350 and the matching callback if the two tokens are equal, with delay
  650 and the hiding callback if they differ. Every flip called while the pair is
  pending is ignored. If the timer armed for the pair is the next timer to fire, with
  no reset before it, then it releases the lock; in the first case both cards are
  matched and face up, in the second both are face down and unmatched; no other card
  has changed.
\<close>

theorem pending_pair_resolution:
  assumes "\<not> rejected (int i) s" and "j < length (deck s)" and "is_open (deck s ! j)"
    and "length (filter is_open (deck s)) = 1" and "list_all is_flip fs"
  shows "locked (flip (int i) now s) \<and>
     timers (flip (int i) now s) = timers s @
       [if emoji (deck s ! i) = emoji (deck s ! j)
        then \<lparr>armed_at = now, delay = 350, callback = MarkMatched\<rparr>
        else \<lparr>armed_at = now, delay = 650, callback = HideOpen\<rparr>] \<and>
     exec fs (flip (int i) now s) = flip (int i) now s \<and>
     \<not> locked (fire (length (timers s)) later (exec fs (flip (int i) now s))) \<and>
     deck (fire (length (timers s)) later (exec fs (flip (int i) now s))) =
       (if emoji (deck s ! i) = emoji (deck s ! j)
        then (deck s)[i := (deck s ! i)\<lparr>flipped := True, matched := True\<rparr>,
                      j := (deck s ! j)\<lparr>matched := True\<rparr>]
        else (deck s)[j := (deck s ! j)\<lparr>flipped := False\<rparr>])"
proof -
  define xs where "xs = deck s"
  define c where "c = (xs ! i)\<lparr>flipped := True\<rparr>"
  define d where "d = xs[i := c]"
  define s0 where "s0 = (if \<not> truthy (startedAt s) then s\<lparr>startedAt := Some now\<rparr> else s)"
  define tm where "tm = (if emoji (xs ! i) = emoji (xs ! j)
        then \<lparr>armed_at = now, delay = 350, callback = MarkMatched\<rparr>
        else \<lparr>armed_at = now, delay = 650, callback = HideOpen\<rparr>)"
  have i: "i < length xs" and down: "\<not> flipped (xs ! i)" "\<not> matched (xs ! i)"
    using assms(1) by (auto simp: rejected_def xs_def)
  have closed: "\<not> is_open (xs ! i)" using down by (simp add: is_open_def)
  have c_open: "is_open c" using down by (simp add: c_def is_open_def)
  have j: "j < length xs" "is_open (xs ! j)" "length (filter is_open xs) = 1"
    using assms(2-4) by (simp_all add: xs_def)
  have ij: "i \<noteq> j" using closed j(2) by auto
  obtain a b where ab: "filter is_open d = [a, b]"
    and ab': "a = c \<and> b = xs ! j \<or> a = xs ! j \<and> b = c"
    using pair_after_flip [OF i closed j c_open] unfolding d_def by blast
  have same: "emoji a = emoji b \<longleftrightarrow> emoji (xs ! i) = emoji (xs ! j)"
    using ab' by (auto simp: c_def)
  have s0: "timers s0 = timers s" "deck s0 = deck s"
    by (simp_all add: s0_def)
  have s1: "flip (int i) now s = deck_effect now ((schedule now [a, b] s0)\<lparr>deck := d\<rparr>)"
    using flip_accepted [OF assms(1)] ab by (simp add: s0_def d_def c_def xs_def)
  have tms: "timers (flip (int i) now s) = timers s @ [tm]"
    unfolding s1 by (simp add: schedule_pair s0 same tm_def)
  have lck: "locked (flip (int i) now s)"
    unfolding s1 by (simp add: schedule_pair)
  have dck: "deck (flip (int i) now s) = d"
    unfolding s1 by simp
  have idx: "{k. k < length d \<and> is_open (d ! k)} = {i, j}"
    unfolding d_def by (rule open_indices_after_flip [OF i closed j c_open])
  have fired: "deck (fire (length (timers s)) later (flip (int i) now s)) = resolve (callback tm) d"
    and unl: "\<not> locked (fire (length (timers s)) later (flip (int i) now s))"
    by (simp_all add: fire_def tms dck)
  have id': "i < length d" "j < length d" using i j(1) by (simp_all add: d_def)
  have di: "d ! i = c" and dj: "d ! j = xs ! j"
    using i ij by (simp_all add: d_def)
  have hid: "c\<lparr>flipped := False\<rparr> = xs ! i"
    using down by (simp add: c_def)
  have res: "resolve (callback tm) d =
       (if emoji (xs ! i) = emoji (xs ! j)
        then xs[i := (xs ! i)\<lparr>flipped := True, matched := True\<rparr>, j := (xs ! j)\<lparr>matched := True\<rparr>]
        else xs[j := (xs ! j)\<lparr>flipped := False\<rparr>])"
  proof (cases "emoji (xs ! i) = emoji (xs ! j)")
    case True
    then have "resolve (callback tm) d = d[i := (d ! i)\<lparr>matched := True\<rparr>, j := (d ! j)\<lparr>matched := True\<rparr>]"
      using resolve_two [OF id' idx] by (simp add: tm_def)
    then show ?thesis using True by (simp add: di dj) (simp add: d_def c_def)
  next
    case False
    then have "resolve (callback tm) d = d[i := (d ! i)\<lparr>flipped := False\<rparr>, j := (d ! j)\<lparr>flipped := False\<rparr>]"
      using resolve_two [OF id' idx] by (simp add: tm_def)
    then show ?thesis using False by (simp add: di dj hid) (simp add: d_def)
  qed
  have idle: "exec fs (flip (int i) now s) = flip (int i) now s"
    using lck assms(5) by (rule locked_ignores_flips)
  show ?thesis
    unfolding idle using lck tms unl fired res by (simp add: tm_def xs_def)
qed


theorem pending_pair_resolution_witness:
  "\<not> rejected (int 2) (flip 1 2 mounted) \<and>
   1 < length (deck (flip 1 2 mounted)) \<and>
   is_open (deck (flip 1 2 mounted) ! 1) \<and>
   length (filter is_open (deck (flip 1 2 mounted))) = 1 \<and>
   list_all is_flip [Flip 5 4, Flip 2 5] \<and>
   emoji (deck (flip 1 2 mounted) ! 2) = emoji (deck (flip 1 2 mounted) ! 1) \<and>
   locked (flip (int 2) 3 (flip 1 2 mounted)) \<and>
   timers (flip (int 2) 3 (flip 1 2 mounted)) =
     [\<lparr>armed_at = 3, delay = 350, callback = MarkMatched\<rparr>] \<and>
   exec [Flip 5 4, Flip 2 5] (flip (int 2) 3 (flip 1 2 mounted)) =
     flip (int 2) 3 (flip 1 2 mounted) \<and>
   \<not> locked (fire 0 353 (exec [Flip 5 4, Flip 2 5] (flip (int 2) 3 (flip 1 2 mounted)))) \<and>
   map matched (deck (fire 0 353 (exec [Flip 5 4, Flip 2 5] (flip (int 2) 3 (flip 1 2 mounted))))) =
     [False, True, True, False, False, False, False, False, False, False, False, False] \<and>
   map flipped (deck (fire 0 353 (exec [Flip 5 4, Flip 2 5] (flip (int 2) 3 (flip 1 2 mounted))))) =
     [False, True, True, False, False, False, False, False, False, False, False, False]"
proof -
  have h1: "\<not> rejected (int 2) (flip 1 2 mounted)" by code_simp
  have h2: "1 < length (deck (flip 1 2 mounted))" by code_simp
  have h3: "is_open (deck (flip 1 2 mounted) ! 1)" by code_simp
  have h4: "length (filter is_open (deck (flip 1 2 mounted))) = 1" by code_simp
  have h5: "list_all is_flip [Flip 5 4, Flip 2 5]" by simp
  have same: "emoji (deck (flip 1 2 mounted) ! 2) = emoji (deck (flip 1 2 mounted) ! 1)"
    by code_simp
  have none: "timers (flip 1 2 mounted) = []" by code_simp
  have cards: "map matched ((deck (flip 1 2 mounted))
        [2 := (deck (flip 1 2 mounted) ! 2)\<lparr>flipped := True, matched := True\<rparr>,
         1 := (deck (flip 1 2 mounted) ! 1)\<lparr>matched := True\<rparr>]) =
      [False, True, True, False, False, False, False, False, False, False, False, False]"
    "map flipped ((deck (flip 1 2 mounted))
        [2 := (deck (flip 1 2 mounted) ! 2)\<lparr>flipped := True, matched := True\<rparr>,
         1 := (deck (flip 1 2 mounted) ! 1)\<lparr>matched := True\<rparr>]) =
      [False, True, True, False, False, False, False, False, False, False, False, False]"
    by code_simp+
  note r = pending_pair_resolution [OF h1 h2 h3 h4 h5, of 3 353]
  have idle: "exec [Flip 5 4, Flip 2 5] (flip (int 2) 3 (flip 1 2 mounted)) =
     flip (int 2) 3 (flip 1 2 mounted)"
    using r by blast
  show ?thesis
    unfolding idle using r [unfolded idle] h1 h2 h3 h4 h5 same none cards idle
    by simp
qed

theorem moves_count_pair_reveals_witness:
  "\<not> rejected 2 (flip 1 2 mounted) \<and>
   length (filter is_open (deck (flip 2 3 (flip 1 2 mounted)))) = 2 \<and>
   moves (flip 2 3 (flip 1 2 mounted)) = moves (flip 1 2 mounted) + 1 \<and>
   \<not> rejected 1 mounted \<and>
   length (filter is_open (deck (flip 1 2 mounted))) \<noteq> 2 \<and>
   moves (flip 1 2 mounted) = moves mounted \<and>
   rejected 5 (flip 2 3 (flip 1 2 mounted)) \<and>
   moves (flip 5 4 (flip 2 3 (flip 1 2 mounted))) = moves (flip 2 3 (flip 1 2 mounted)) \<and>
   moves (fire 0 353 (flip 2 3 (flip 1 2 mounted))) = moves (flip 2 3 (flip 1 2 mounted))"
proof -
  have a: "\<not> rejected 2 (flip 1 2 mounted)"
    "length (filter is_open (deck (flip 2 3 (flip 1 2 mounted)))) = 2"
    by code_simp+
  have b: "\<not> rejected 1 mounted"
    "length (filter is_open (deck (flip 1 2 mounted))) \<noteq> 2"
    by code_simp+
  have c: "rejected 5 (flip 2 3 (flip 1 2 mounted))"
    by code_simp
  show ?thesis
    using moves_count_pair_reveals [of 2 "flip 1 2 mounted" 3 0 353]
      moves_count_pair_reveals [of 1 mounted 2 0 353]
      moves_count_pair_reveals [of 5 "flip 2 3 (flip 1 2 mounted)" 4 0 353] a b c
    by simp
qed

theorem flip_noop_or_opens_witness:
  "rejected 5 (flip 2 3 (flip 1 2 mounted)) \<and>
   flip 5 4 (flip 2 3 (flip 1 2 mounted)) = flip 2 3 (flip 1 2 mounted) \<and>
   rejected 12 mounted \<and> flip 12 2 mounted = mounted \<and>
   rejected (- 1) mounted \<and> flip (- 1) 2 mounted = mounted \<and>
   \<not> rejected 1 mounted \<and>
   deck (flip 1 2 mounted) = (deck mounted)[1 := (deck mounted ! 1)\<lparr>flipped := True\<rparr>]"
proof -
  have a: "rejected 5 (flip 2 3 (flip 1 2 mounted))" "rejected 12 mounted"
    "rejected (- 1) mounted" "\<not> rejected 1 mounted"
    by code_simp+
  show ?thesis
    using flip_noop_or_opens [of 5 "flip 2 3 (flip 1 2 mounted)" 4]
      flip_noop_or_opens [of 12 mounted 2] flip_noop_or_opens [of "- 1" mounted 2]
      flip_noop_or_opens [of 1 mounted 2] a
    by simp
qed

section \<open>Invariants of the deck\<close>

lemma length_filter_update:
  "i < length xs \<Longrightarrow> \<not> P (xs ! i) \<Longrightarrow> P c \<Longrightarrow>
     length (filter P (xs[i := c])) = Suc (length (filter P xs))"
proof (induction xs arbitrary: i)
  case Nil
  then show ?case by simp
next
  case (Cons x xs)
  then show ?case by (cases i) auto
qed

lemma resolve_closes: "filter is_open (resolve cb xs) = []"
  by (cases cb) (auto simp: filter_empty_conv is_open_def)

lemma seed_closed: "c \<in> set (seed p) \<Longrightarrow> \<not> flipped c \<and> \<not> matched c"
  unfolding seed_def by (rule flags_pairs)

lemma reset_closed:
  assumes "unit_draws rnd" "c \<in> set (deck (reset p rnd s))"
  shows "\<not> flipped c \<and> \<not> matched c"
proof -
  have "mset (deck (reset p rnd s)) = mset (seed p)"
    using assms(1) by (simp add: deck_reset mset_shuffle)
  then have "set (deck (reset p rnd s)) = set (seed p)"
    by (rule mset_eq_setD)
  then show ?thesis using assms(2) seed_closed by blast
qed

lemma lock_inv_flip:
  assumes "lock_inv s"
  shows "lock_inv (flip index now s)"
proof (cases "rejected index s")
  case True
  then show ?thesis using assms by (simp add: flip_rejected)
next
  case False
  define c where "c = (deck s ! nat index)\<lparr>flipped := True\<rparr>"
  define d where "d = (deck s)[nat index := c]"
  define m where "m = length (filter is_open d)"
  have acc: "\<not> locked s" "nat index < length (deck s)" "\<not> is_open (deck s ! nat index)"
    "is_open c"
    using False by (auto simp: rejected_def is_open_def c_def)
  have "m = Suc (length (filter is_open (deck s)))"
    unfolding m_def d_def using acc(2-4) by (rule length_filter_update)
  moreover have "length (filter is_open (deck s)) \<le> 1"
    using assms acc(1) by (simp add: lock_inv_def)
  ultimately have m: "m \<le> 2" by simp
  have dk: "deck (flip index now s) = d"
    unfolding flip_accepted [OF False] d_def c_def by simp
  have lk: "locked (flip index now s) = (m = 2 \<or> locked s)"
    unfolding flip_accepted [OF False] m_def d_def c_def by (simp add: schedule_locked)
  have "m \<le> 2 \<and> (\<not> (m = 2 \<or> locked s) \<longrightarrow> m \<le> 1)"
    using m by arith
  then show ?thesis
    unfolding lock_inv_def dk lk m_def .
qed

lemma lock_inv_fire: "lock_inv s \<Longrightarrow> lock_inv (fire k now s)"
  by (simp add: fire_def lock_inv_def resolve_closes)

lemma lock_inv_reset:
  assumes "unit_draws rnd"
  shows "lock_inv (deck_effect now (reset p rnd s))"
proof -
  have "filter is_open (deck (reset p rnd s)) = []"
    using reset_closed [OF assms] by (auto simp: filter_empty_conv is_open_def)
  then show ?thesis by (simp add: lock_inv_def)
qed

lemma lock_inv_event: "well_formed e \<Longrightarrow> lock_inv s \<Longrightarrow> lock_inv (apply_event e s)"
  by (cases e) (simp_all add: lock_inv_flip lock_inv_fire lock_inv_reset)

lemma lock_inv_exec: "list_all well_formed es \<Longrightarrow> lock_inv s \<Longrightarrow> lock_inv (exec es s)"
  by (induction es arbitrary: s) (simp_all add: lock_inv_event)

lemma lock_inv_initial: "lock_inv initial"
  by (simp add: lock_inv_def initial_def)

text \<open>
  Claim C4. In every state that the hook reaches from its initial state by any
  sequence of events (the mount is the first reset; then flips, timer firings and
  resets in any order), at most two cards are face up and unmatched.
\<close>

theorem at_most_two_open:
  assumes "list_all well_formed es"
  shows "length (filter is_open (deck (exec es initial))) \<le> 2"
  using lock_inv_exec [OF assms lock_inv_initial] by (simp add: lock_inv_def)

lemma face_inv_flip: "face_inv s \<Longrightarrow> face_inv (flip index now s)"
proof (cases "rejected index s")
  case True
  then show "face_inv s \<Longrightarrow> ?thesis" by (simp add: flip_rejected)
next
  case False
  assume inv: "face_inv s"
  have "set ((deck s)[nat index := (deck s ! nat index)\<lparr>flipped := True\<rparr>])
      \<subseteq> insert ((deck s ! nat index)\<lparr>flipped := True\<rparr>) (set (deck s))"
    by (rule set_update_subset_insert)
  then show ?thesis
    using False inv by (auto simp: flip_accepted face_inv_def list_all_iff)
qed

lemma face_inv_fire: "face_inv s \<Longrightarrow> face_inv (fire k now s)"
  by (cases "callback (timers s ! k)") (auto simp: fire_def face_inv_def list_all_iff is_open_def)

lemma face_inv_reset:
  assumes "unit_draws rnd"
  shows "face_inv (deck_effect now (reset p rnd s))"
  using reset_closed [OF assms] by (auto simp: face_inv_def list_all_iff)

lemma face_inv_event: "well_formed e \<Longrightarrow> face_inv s \<Longrightarrow> face_inv (apply_event e s)"
  by (cases e) (simp_all add: face_inv_flip face_inv_fire face_inv_reset)

lemma face_inv_exec: "list_all well_formed es \<Longrightarrow> face_inv s \<Longrightarrow> face_inv (exec es s)"
  by (induction es arbitrary: s) (simp_all add: face_inv_event)

text \<open>
  Claim C9. In every state that the hook reaches by any sequence of flips, timer
  firings and resets, every matched card is face up.
\<close>

theorem matched_cards_face_up:
  assumes "list_all well_formed es" and "c \<in> set (deck (exec es initial))" and "matched c"
  shows "flipped c"
proof -
  have "face_inv initial" by (simp add: face_inv_def initial_def)
  then have "face_inv (exec es initial)"
    using assms(1) by (rule face_inv_exec [rotated])
  then show ?thesis using assms(2,3) by (simp add: face_inv_def list_all_iff)
qed

theorem at_most_two_open_witness:
  "list_all well_formed
     [Reset 6 zeros 1, Flip 1 2, Flip 2 3, Flip 5 4, Fire 0 353, Flip 0 400,
      Reset 6 zeros 500, Flip 3 501, Flip 5 502, Flip 7 503] \<and>
   length (filter is_open (deck (exec
     [Reset 6 zeros 1, Flip 1 2, Flip 2 3, Flip 5 4, Fire 0 353, Flip 0 400,
      Reset 6 zeros 500, Flip 3 501, Flip 5 502, Flip 7 503] initial))) \<le> 2 \<and>
   map flipped (deck (exec
     [Reset 6 zeros 1, Flip 1 2, Flip 2 3, Flip 5 4, Fire 0 353, Flip 0 400,
      Reset 6 zeros 500, Flip 3 501, Flip 5 502, Flip 7 503] initial)) =
     [False, False, False, True, False, True, False, False, False, False, False, False]"
proof -
  have wf: "list_all well_formed
     [Reset 6 zeros 1, Flip 1 2, Flip 2 3, Flip 5 4, Fire 0 353, Flip 0 400,
      Reset 6 zeros 500, Flip 3 501, Flip 5 502, Flip 7 503]"
    by (simp add: unit_draws_zeros)
  have run: "map flipped (deck (exec
     [Reset 6 zeros 1, Flip 1 2, Flip 2 3, Flip 5 4, Fire 0 353, Flip 0 400,
      Reset 6 zeros 500, Flip 3 501, Flip 5 502, Flip 7 503] initial)) =
     [False, False, False, True, False, True, False, False, False, False, False, False]"
    by code_simp
  from wf at_most_two_open [OF wf] run show ?thesis by (intro conjI)
qed


theorem matched_cards_face_up_witness:
  "list_all well_formed [Reset 6 zeros 1, Flip 1 2, Flip 2 3, Fire 0 353] \<and>
   deck (exec [Reset 6 zeros 1, Flip 1 2, Flip 2 3, Fire 0 353] initial) ! 1
     \<in> set (deck (exec [Reset 6 zeros 1, Flip 1 2, Flip 2 3, Fire 0 353] initial)) \<and>
   matched (deck (exec [Reset 6 zeros 1, Flip 1 2, Flip 2 3, Fire 0 353] initial) ! 1) \<and>
   flipped (deck (exec [Reset 6 zeros 1, Flip 1 2, Flip 2 3, Fire 0 353] initial) ! 1)"
proof -
  have wf: "list_all well_formed [Reset 6 zeros 1, Flip 1 2, Flip 2 3, Fire 0 353]"
    by (simp add: unit_draws_zeros)
  have len: "1 < length (deck (exec [Reset 6 zeros 1, Flip 1 2, Flip 2 3, Fire 0 353] initial))"
    by code_simp
  have mem: "deck (exec [Reset 6 zeros 1, Flip 1 2, Flip 2 3, Fire 0 353] initial) ! 1
     \<in> set (deck (exec [Reset 6 zeros 1, Flip 1 2, Flip 2 3, Fire 0 353] initial))"
    using len by (rule nth_mem)
  have mat: "matched (deck (exec [Reset 6 zeros 1, Flip 1 2, Flip 2 3, Fire 0 353] initial) ! 1)"
    by code_simp
  from wf mem mat matched_cards_face_up [OF wf mem mat] show ?thesis by (intro conjI)
qed

lemma resolve_nothing_open: "filter is_open xs = [] \<Longrightarrow> resolve cb xs = xs"
  by (cases cb) (auto simp: filter_empty_conv intro: map_idI)

lemma fire_deck:
  "deck (fire k now s) = (if k < length (timers s) then resolve (callback (timers s ! k)) (deck s) else deck s)"
  by (simp add: fire_def)

text \<open>
  Claim C2 says that a timer that fires after a reset changes nothing of the new deck,
  also when cards were flipped in between. The callbacks carry no mark of the deck
  they were armed for: after \<open>stale_run\<close>, a schedule the browser can produce, the
  timer armed before the reset turns the card opened after the reset face down again.
\<close>

theorem stale_timer_counterexample:
  "feasible 0 initial (stale_run @ [Fire 0 653]) \<and>
   timers (exec stale_run initial) = [\<lparr>armed_at = 3, delay = 650, callback = HideOpen\<rparr>] \<and>
   map flipped (deck (exec stale_run initial)) =
     [True, False, False, False, False, False, False, False, False, False, False, False] \<and>
   map flipped (deck (exec (stale_run @ [Fire 0 653]) initial)) =
     [False, False, False, False, False, False, False, False, False, False, False, False] \<and>
   deck (exec (stale_run @ [Fire 0 653]) initial) \<noteq> deck (exec stale_run initial)"
proof -
  have a: "feasible 0 initial (stale_run @ [Fire 0 653])"
    unfolding stale_run_def by code_simp
  have b: "timers (exec stale_run initial) = [\<lparr>armed_at = 3, delay = 650, callback = HideOpen\<rparr>]"
    unfolding stale_run_def by code_simp
  have c: "map flipped (deck (exec stale_run initial)) =
     [True, False, False, False, False, False, False, False, False, False, False, False]"
    unfolding stale_run_def by code_simp
  have d: "map flipped (deck (exec (stale_run @ [Fire 0 653]) initial)) =
     [False, False, False, False, False, False, False, False, False, False, False, False]"
    unfolding stale_run_def by code_simp
  have "map flipped (deck (exec (stale_run @ [Fire 0 653]) initial)) \<noteq>
      map flipped (deck (exec stale_run initial))"
    unfolding c d by simp
  then have e: "deck (exec (stale_run @ [Fire 0 653]) initial) \<noteq> deck (exec stale_run initial)"
    by auto
  from a b c d e show ?thesis by (intro conjI)
qed

text \<open>
  Claim C2, amended. A timer that fires never changes the move counter, and it leaves
  the deck as it is when no card of the deck is open at that moment. In particular a
  timer that fires after a reset and before any later flip leaves the new deck and
  its move count of 0 untouched.
\<close>

theorem stale_timer_effect:
  "moves (fire k now s) = moves s \<and>
   (filter is_open (deck s) = [] \<longrightarrow> deck (fire k now s) = deck s) \<and>
   (unit_draws rnd \<longrightarrow>
      deck (fire k now (apply_event (Reset p rnd t) s)) = deck (apply_event (Reset p rnd t) s) \<and>
      moves (fire k now (apply_event (Reset p rnd t) s)) = 0)"
proof -
  have closed: "filter is_open (deck (apply_event (Reset p rnd t) s)) = []" if "unit_draws rnd"
    using reset_closed [OF that] by (auto simp: filter_empty_conv is_open_def)
  have "moves (apply_event (Reset p rnd t) s) = 0"
    by (simp add: reset_def)
  then show ?thesis
    using closed by (simp add: fire_moves fire_deck resolve_nothing_open)
qed

theorem stale_timer_effect_witness:
  "unit_draws zeros \<and>
   timers (exec [Reset 6 zeros 1, Flip 0 2, Flip 1 3] initial) =
     [\<lparr>armed_at = 3, delay = 650, callback = HideOpen\<rparr>] \<and>
   filter is_open (deck (apply_event (Reset 6 zeros 100) (exec [Reset 6 zeros 1, Flip 0 2, Flip 1 3] initial))) = [] \<and>
   deck (fire 0 653 (apply_event (Reset 6 zeros 100) (exec [Reset 6 zeros 1, Flip 0 2, Flip 1 3] initial))) =
     deck (apply_event (Reset 6 zeros 100) (exec [Reset 6 zeros 1, Flip 0 2, Flip 1 3] initial)) \<and>
   moves (fire 0 653 (apply_event (Reset 6 zeros 100) (exec [Reset 6 zeros 1, Flip 0 2, Flip 1 3] initial))) = 0"
proof -
  have a: "timers (exec [Reset 6 zeros 1, Flip 0 2, Flip 1 3] initial) =
     [\<lparr>armed_at = 3, delay = 650, callback = HideOpen\<rparr>]"
    by code_simp
  have b: "filter is_open (deck (apply_event (Reset 6 zeros 100) (exec [Reset 6 zeros 1, Flip 0 2, Flip 1 3] initial))) = []"
    by code_simp
  from stale_timer_effect [of 0 653 "exec [Reset 6 zeros 1, Flip 0 2, Flip 1 3] initial" zeros 6 100]
    stale_timer_effect [of 0 653 "apply_event (Reset 6 zeros 100) (exec [Reset 6 zeros 1, Flip 0 2, Flip 1 3] initial)" zeros 6 100] b
  have "deck (fire 0 653 (apply_event (Reset 6 zeros 100) (exec [Reset 6 zeros 1, Flip 0 2, Flip 1 3] initial))) =
     deck (apply_event (Reset 6 zeros 100) (exec [Reset 6 zeros 1, Flip 0 2, Flip 1 3] initial))"
    and "moves (fire 0 653 (apply_event (Reset 6 zeros 100) (exec [Reset 6 zeros 1, Flip 0 2, Flip 1 3] initial))) = 0"
    using unit_draws_zeros by blast+
  with a b unit_draws_zeros show ?thesis by (intro conjI)
qed

section \<open>Properties of the pair count\<close>

text \<open>
  Claim C7 says that every value outside 6, 8, 10, 12 resolves to 8. That holds for
  \<^verbatim>\<open>usePairsParam\<close>. \<^verbatim>\<open>useQueryPairs\<close> tests a range instead: \<^verbatim>\<open>?pairs=7\<close> resolves to
  7, and \<^verbatim>\<open>?pairs=20\<close> to 20, more than the 16 tokens of the palette.
\<close>

theorem pairs_range_counterexample:
  "useQueryPairs (Text (Num 7)) = Num 7 \<and> Num 7 \<noteq> Num 8 \<and>
   \<not> includes_value MEMORY_PAIR_OPTIONS (Num 7) \<and>
   useQueryPairs (Text (Num 20)) = Num 20 \<and> length emojis = 16"
  by (simp add: useQueryPairs_def MEMORY_PAIR_OPTIONS_def length_emojis)

text \<open>
  Claim C7, amended. \<^verbatim>\<open>usePairsParam\<close> resolves to one of 6, 8, 10, 12: to the value
  of the parameter when that is one of them, and to 8 when the parameter is absent,
  empty, not numeric or another number. \<^verbatim>\<open>useQueryPairs\<close> resolves to 8 when the value
  is not a finite number or is a number below 4 or above 24, and it resolves every
  number from 4 to 16 to itself.
\<close>

theorem pairs_configuration:
  "includes_value MEMORY_PAIR_OPTIONS (usePairsParam raw) \<and>
   (\<not> includes_value MEMORY_PAIR_OPTIONS (Number raw) \<longrightarrow> usePairsParam raw = Num 8) \<and>
   (includes_value MEMORY_PAIR_OPTIONS (Number raw) \<longrightarrow> usePairsParam raw = Number raw) \<and>
   (\<not> isFinite (Number raw) \<longrightarrow> useQueryPairs raw = Num 8) \<and>
   (Number raw = Num x \<and> (x < 4 \<or> 24 < x) \<longrightarrow> useQueryPairs raw = Num 8) \<and>
   (Number raw = Num x \<and> 4 \<le> x \<and> x \<le> 16 \<longrightarrow> useQueryPairs raw = Num x)"
proof -
  have opts: "includes_value MEMORY_PAIR_OPTIONS (Num 8)" "\<not> includes_value MEMORY_PAIR_OPTIONS (Num 0)"
    by (simp_all add: MEMORY_PAIR_OPTIONS_def)
  have a: "includes_value MEMORY_PAIR_OPTIONS (usePairsParam raw)"
    using opts(1) by (cases raw) (simp_all add: usePairsParam_def readValue_def del: includes_value.simps)
  have b: "usePairsParam raw = Num 8" if "\<not> includes_value MEMORY_PAIR_OPTIONS (Number raw)"
    using that by (cases raw) (simp_all add: usePairsParam_def readValue_def)
  have c: "usePairsParam raw = Number raw" if "includes_value MEMORY_PAIR_OPTIONS (Number raw)"
    using that opts by (cases raw) (simp_all add: usePairsParam_def readValue_def)
  have d: "useQueryPairs raw = Num 8" if "\<not> isFinite (Number raw)"
    using that by (simp add: useQueryPairs_def)
  have e: "useQueryPairs raw = Num 8" if "Number raw = Num x" "x < 4 \<or> 24 < x"
    using that by (auto simp: useQueryPairs_def)
  have f: "useQueryPairs raw = Num x" if "Number raw = Num x" "4 \<le> x" "x \<le> 16"
    using that by (simp add: useQueryPairs_def)
  from a b c d e f show ?thesis by blast
qed

theorem pairs_configuration_witness:
  "includes_value MEMORY_PAIR_OPTIONS (usePairsParam (Text (Num 10))) \<and>
   usePairsParam (Text (Num 10)) = Num 10 \<and>
   \<not> includes_value MEMORY_PAIR_OPTIONS (Number (Text (Num 99))) \<and>
   usePairsParam (Text (Num 99)) = Num 8 \<and>
   \<not> includes_value MEMORY_PAIR_OPTIONS (Number (Text NaN)) \<and>
   usePairsParam (Text NaN) = Num 8 \<and>
   usePairsParam Null = Num 8 \<and>
   \<not> isFinite (Number (Text NaN)) \<and> useQueryPairs (Text NaN) = Num 8 \<and>
   Number (Text (Num 99)) = Num 99 \<and> useQueryPairs (Text (Num 99)) = Num 8 \<and>
   Number Null = Num 0 \<and> useQueryPairs Null = Num 8 \<and>
   Number (Text (Num 10)) = Num 10 \<and> useQueryPairs (Text (Num 10)) = Num 10"
proof -
  have h: "includes_value MEMORY_PAIR_OPTIONS (Number (Text (Num 10)))"
    "\<not> includes_value MEMORY_PAIR_OPTIONS (Number (Text (Num 99)))"
    "\<not> includes_value MEMORY_PAIR_OPTIONS (Number (Text NaN))"
    "\<not> includes_value MEMORY_PAIR_OPTIONS (Number Null)"
    "\<not> isFinite (Number (Text NaN))"
    by (simp_all add: MEMORY_PAIR_OPTIONS_def)
  show ?thesis
    using pairs_configuration [of "Text (Num 10)" 10] pairs_configuration [of "Text (Num 99)" 99]
      pairs_configuration [of "Text NaN" 0] pairs_configuration [of Null 0] h
    by simp
qed

section \<open>Completion and elapsed time\<close>

lemma finishedAt_deck_effect:
  "finishedAt (deck_effect now s) = (if complete (deck s) then Some now else finishedAt s)"
  by (simp add: deck_effect_def complete_def)

lemma complete_closed: "complete d \<Longrightarrow> filter is_open d = []"
  by (auto simp: complete_def filter_empty_conv list_all_iff is_open_def)

lemma complete_rejects: "complete (deck s) \<Longrightarrow> rejected index s"
  by (auto simp: complete_def rejected_def list_all_length)

lemma accepted_incomplete: "\<not> rejected index s \<Longrightarrow> \<not> complete (deck s)"
  using complete_rejects by blast

lemma flipped_incomplete:
  assumes "\<not> rejected index s"
  shows "\<not> complete ((deck s)[nat index := (deck s ! nat index)\<lparr>flipped := True\<rparr>])"
proof -
  have i: "nat index < length (deck s)" and m: "\<not> matched (deck s ! nat index)"
    using assms by (auto simp: rejected_def)
  have "\<not> matched (((deck s)[nat index := (deck s ! nat index)\<lparr>flipped := True\<rparr>]) ! nat index)"
    using i m by simp
  then show ?thesis
    using i by (auto simp: complete_def list_all_length)
qed

lemma finishedAt_flip: "finishedAt (flip index now s) = finishedAt s"
proof (cases "rejected index s")
  case True
  then show ?thesis by (simp add: flip_rejected)
next
  case False
  then show ?thesis
    by (simp add: flip_accepted finishedAt_deck_effect flipped_incomplete)
qed

lemma fin_inv_flip: "fin_inv s \<Longrightarrow> fin_inv (flip index now s)"
proof (cases "rejected index s")
  case True
  then show "fin_inv s \<Longrightarrow> ?thesis" by (simp add: flip_rejected)
next
  case False
  assume "fin_inv s"
  then have "finishedAt s = None"
    using accepted_incomplete [OF False] by (auto simp: fin_inv_def)
  then show ?thesis by (simp add: fin_inv_def finishedAt_flip)
qed

lemma fin_inv_fire: "fin_inv s \<Longrightarrow> fin_inv (fire k now s)"
  by (auto simp: fin_inv_def fire_def finishedAt_deck_effect complete_closed resolve_nothing_open
      split: if_splits)

lemma fin_inv_reset: "fin_inv (deck_effect now (reset p rnd s))"
  by (simp add: fin_inv_def finishedAt_deck_effect reset_def)

lemma fin_inv_event: "fin_inv s \<Longrightarrow> fin_inv (apply_event e s)"
  by (cases e) (simp_all add: fin_inv_flip fin_inv_fire fin_inv_reset)

lemma fin_inv_exec: "fin_inv s \<Longrightarrow> fin_inv (exec es s)"
  by (induction es arbitrary: s) (simp_all add: fin_inv_event)

lemma elapsed_needs_end: "elapsedMs sub s \<noteq> None \<Longrightarrow> finishedAt s \<noteq> None"
  by (auto simp: elapsedMs_def split: option.splits)

lemma first_completion:
  assumes "\<not> complete (deck s)" "complete (deck (apply_event e s))"
  shows "finishedAt (apply_event e s) = Some (time_of e)"
proof (cases e)
  case (Flip index now)
  then have "\<not> rejected index s"
    using assms by (auto simp: flip_rejected)
  then have "\<not> complete (deck (flip index now s))"
    by (simp add: flip_accepted flipped_incomplete)
  then show ?thesis using assms(2) Flip by simp
next
  case (Fire k now)
  then have "k < length (timers s)"
    using assms by (auto simp: fire_def split: if_splits)
  then show ?thesis
    using assms(2) Fire by (simp add: fire_def finishedAt_deck_effect)
next
  case (Reset p rnd now)
  then show ?thesis
    using assms(2) by (simp add: finishedAt_deck_effect)
qed

lemma complete_stable:
  assumes "complete (deck s)" "timers s = []" "\<not> is_reset e"
  shows "apply_event e s = s"
proof (cases e)
  case (Flip index now)
  then show ?thesis using assms(1) by (simp add: flip_rejected complete_rejects)
next
  case (Fire k now)
  then show ?thesis using assms(2) by (simp add: fire_def)
next
  case (Reset p rnd now)
  then show ?thesis using assms(3) by simp
qed

lemma complete_stable_exec:
  "complete (deck s) \<Longrightarrow> timers s = [] \<Longrightarrow> list_all (\<lambda>e. \<not> is_reset e) es \<Longrightarrow> exec es s = s"
  by (induction es) (simp_all add: complete_stable)

lemma startedAt_flip:
  "\<not> rejected index s \<Longrightarrow>
     startedAt (flip index now s) = (if truthy (startedAt s) then startedAt s else Some now)"
  by (simp add: flip_accepted)

lemma clock_inv_flip:
  assumes "clock_inv s" "0 < now"
  shows "clock_inv (flip index now s)"
proof (cases "rejected index s")
  case True
  then show ?thesis using assms by (simp add: flip_rejected)
next
  case False
  have "truthy (startedAt (flip index now s))"
    using assms(2) by (simp add: startedAt_flip [OF False] truthy_def)
  moreover have "\<not> complete (deck (flip index now s))"
    using flipped_incomplete [OF False] by (simp add: flip_accepted [OF False])
  ultimately show ?thesis by (simp add: clock_inv_def)
qed

lemma flipped_resolve: "list_ex flipped (resolve cb d) \<Longrightarrow> list_ex flipped d"
  by (cases cb) (auto simp: list_ex_iff split: if_splits)

lemma clock_inv_fire:
  assumes "clock_inv s" "0 < now"
  shows "clock_inv (fire k now s)"
proof (cases "k < length (timers s)")
  case True
  have "truthy (startedAt (fire k now s))" if "list_ex flipped (deck (fire k now s))"
    using that assms(1) True flipped_resolve by (auto simp: fire_def clock_inv_def)
  moreover have "truthy (finishedAt (fire k now s))" if "complete (deck (fire k now s))"
    using that assms(2) True by (simp add: fire_def finishedAt_deck_effect truthy_def)
  ultimately show ?thesis by (auto simp: clock_inv_def)
next
  case False
  then show ?thesis using assms by (simp add: fire_def)
qed

lemma clock_inv_reset:
  assumes "unit_draws rnd" "0 < now"
  shows "clock_inv (deck_effect now (reset p rnd s))"
proof -
  have "\<not> list_ex flipped (deck (reset p rnd s))"
    using reset_closed [OF assms(1)] by (auto simp: list_ex_iff)
  then show ?thesis
    using assms(2) by (simp add: clock_inv_def finishedAt_deck_effect truthy_def)
qed

lemma clock_inv_event:
  "clock_inv s \<Longrightarrow> well_formed e \<Longrightarrow> 0 < time_of e \<Longrightarrow> clock_inv (apply_event e s)"
  by (cases e) (simp_all add: clock_inv_flip clock_inv_fire clock_inv_reset)

lemma clock_inv_exec:
  "clock_inv s \<Longrightarrow> list_all well_formed es \<Longrightarrow> list_all (\<lambda>e. 0 < time_of e) es \<Longrightarrow>
     clock_inv (exec es s)"
  by (induction es arbitrary: s) (simp_all add: clock_inv_event)

lemma elapsed_present:
  assumes "truthy (startedAt s)" "truthy (finishedAt s)"
  shows "\<exists>b f. startedAt s = Some b \<and> finishedAt s = Some f \<and>
     elapsedMs sub s = Some \<lfloor>sub f b + 1 / 2\<rfloor>"
  using assms by (auto simp: truthy_def elapsedMs_def split: option.splits)

lemma complete_all_flipped: "face_inv s \<Longrightarrow> complete (deck s) \<Longrightarrow> list_ex flipped (deck s)"
  by (cases "deck s") (auto simp: face_inv_def complete_def)

text \<open>
  Claim C8 says that the end timestamp is set once and that the elapsed time is end
  minus start and stays fixed until the next reset. In \<open>quick_run\<close>, a schedule the
  browser can produce, the deck is complete at time 1850 with a timer still pending;
  when it fires at 2150, with no reset in between, the completion effect runs again
  and sets the end timestamp a second time. The timestamps of this run are multiples
  of 1/2, whose difference as doubles is the exact difference: the elapsed time
  changes from 1650 to 1950, and 1650 is the rounded value of 1850 - 200.5.
\<close>

theorem elapsed_changed_counterexample:
  "feasible 0 initial (quick_run @ [Fire 0 2150]) \<and>
   complete (deck (exec quick_run initial)) \<and>
   startedAt (exec quick_run initial) = Some (401 / 2) \<and>
   finishedAt (exec quick_run initial) = Some 1850 \<and>
   elapsedMs (-) (exec quick_run initial) = Some 1650 \<and>
   \<not> is_reset (Fire 0 2150) \<and>
   startedAt (exec (quick_run @ [Fire 0 2150]) initial) = Some (401 / 2) \<and>
   finishedAt (exec (quick_run @ [Fire 0 2150]) initial) = Some 2150 \<and>
   elapsedMs (-) (exec (quick_run @ [Fire 0 2150]) initial) = Some 1950"
proof -
  have a: "feasible 0 initial (quick_run @ [Fire 0 2150])"
    unfolding quick_run_def by code_simp
  have b: "complete (deck (exec quick_run initial))"
    unfolding quick_run_def by code_simp
  have c: "startedAt (exec quick_run initial) = Some (401 / 2)"
    unfolding quick_run_def by code_simp
  have d: "finishedAt (exec quick_run initial) = Some 1850"
    unfolding quick_run_def by code_simp
  have e: "elapsedMs (-) (exec quick_run initial) = Some 1650"
    by (simp add: elapsedMs_def c d)
  have c': "startedAt (exec (quick_run @ [Fire 0 2150]) initial) = Some (401 / 2)"
    unfolding quick_run_def by code_simp
  have f: "finishedAt (exec (quick_run @ [Fire 0 2150]) initial) = Some 2150"
    unfolding quick_run_def by code_simp
  have g: "elapsedMs (-) (exec (quick_run @ [Fire 0 2150]) initial) = Some 1950"
    by (simp add: elapsedMs_def c' f)
  have h: "\<not> is_reset (Fire 0 2150)" by simp
  from a b c d e h c' f g show ?thesis by (intro conjI)
qed

text \<open>
  Claim C8, amended. In every run whose events carry positive times: the elapsed
  time is absent unless every card is matched; the event that makes the deck complete
  sets the end timestamp to its own time; once the deck is complete, both timestamps
  are set and the elapsed time is \<^verbatim>\<open>Math.round\<close> of the difference of the doubles end
  and start; and if no timer is pending when the deck is complete, no sequence of
  flips and timer events changes the state, so that the end timestamp and the elapsed
  time stay as they are until the next reset.
\<close>

theorem elapsed_fixed_at_completion:
  assumes "list_all well_formed es" and "list_all (\<lambda>e. 0 < time_of e) es"
  shows "(elapsedMs sub (exec es initial) \<noteq> None \<longrightarrow> complete (deck (exec es initial))) \<and>
     (\<not> complete (deck (exec es initial)) \<and> complete (deck (apply_event e (exec es initial))) \<longrightarrow>
        finishedAt (apply_event e (exec es initial)) = Some (time_of e)) \<and>
     (complete (deck (exec es initial)) \<longrightarrow>
        (\<exists>b f. startedAt (exec es initial) = Some b \<and> finishedAt (exec es initial) = Some f \<and>
           elapsedMs sub (exec es initial) = Some \<lfloor>sub f b + 1 / 2\<rfloor>) \<and>
        (timers (exec es initial) = [] \<and> list_all (\<lambda>e. \<not> is_reset e) es' \<longrightarrow>
           exec es' (exec es initial) = exec es initial))"
proof -
  define s where "s = exec es initial"
  have fin: "fin_inv s"
    unfolding s_def by (rule fin_inv_exec) (simp add: fin_inv_def initial_def)
  have clk: "clock_inv s"
    unfolding s_def using assms(1,2)
    by (intro clock_inv_exec) (simp_all add: clock_inv_def initial_def complete_def)
  have face: "face_inv s"
    unfolding s_def using assms(1) by (intro face_inv_exec) (simp_all add: face_inv_def initial_def)
  have a: "complete (deck s)" if "elapsedMs sub s \<noteq> None"
    using fin elapsed_needs_end [OF that] by (simp add: fin_inv_def)
  have b: "finishedAt (apply_event e s) = Some (time_of e)"
    if "\<not> complete (deck s)" "complete (deck (apply_event e s))"
    using that by (rule first_completion)
  have c: "\<exists>b f. startedAt s = Some b \<and> finishedAt s = Some f \<and>
      elapsedMs sub s = Some \<lfloor>sub f b + 1 / 2\<rfloor>"
    if "complete (deck s)"
  proof (rule elapsed_present)
    show "truthy (startedAt s)"
      using clk complete_all_flipped [OF face that] by (simp add: clock_inv_def)
    show "truthy (finishedAt s)"
      using clk that by (simp add: clock_inv_def)
  qed
  have d: "exec es' s = s"
    if "complete (deck s)" "timers s = []" "list_all (\<lambda>e. \<not> is_reset e) es'"
    using that by (rule complete_stable_exec)
  from a b c d show ?thesis
    unfolding s_def by blast
qed

theorem elapsed_fixed_at_completion_witness:
  "list_all well_formed (play @ [Fire 0 3050]) \<and>
   list_all (\<lambda>e. 0 < time_of e) (play @ [Fire 0 3050]) \<and>
   \<not> complete (deck (exec play initial)) \<and>
   elapsedMs (-) (exec play initial) = None \<and>
   complete (deck (apply_event (Fire 0 3050) (exec play initial))) \<and>
   finishedAt (apply_event (Fire 0 3050) (exec play initial)) = Some (time_of (Fire 0 3050)) \<and>
   complete (deck (exec (play @ [Fire 0 3050]) initial)) \<and>
   startedAt (exec (play @ [Fire 0 3050]) initial) = Some 100 \<and>
   finishedAt (exec (play @ [Fire 0 3050]) initial) = Some 3050 \<and>
   elapsedMs (-) (exec (play @ [Fire 0 3050]) initial) = Some 2950 \<and>
   timers (exec (play @ [Fire 0 3050]) initial) = [] \<and>
   list_all (\<lambda>e. \<not> is_reset e) [Flip 3 4000, Fire 0 4100, Flip 20 4200] \<and>
   exec [Flip 3 4000, Fire 0 4100, Flip 20 4200] (exec (play @ [Fire 0 3050]) initial) =
     exec (play @ [Fire 0 3050]) initial"
proof -
  have wf: "list_all well_formed (play @ [Fire 0 3050])" "list_all well_formed play"
    by (simp_all add: play_def unit_draws_zeros)
  have pos: "list_all (\<lambda>e. 0 < time_of e) (play @ [Fire 0 3050])"
    "list_all (\<lambda>e. 0 < time_of e) play"
    by (simp_all add: play_def)
  have inc: "\<not> complete (deck (exec play initial))"
    unfolding play_def by code_simp
  have com: "complete (deck (apply_event (Fire 0 3050) (exec play initial)))"
    unfolding play_def by code_simp
  have com': "complete (deck (exec (play @ [Fire 0 3050]) initial))"
    unfolding play_def by code_simp
  have st: "startedAt (exec (play @ [Fire 0 3050]) initial) = Some 100"
    unfolding play_def by code_simp
  have en: "finishedAt (exec (play @ [Fire 0 3050]) initial) = Some 3050"
    unfolding play_def by code_simp
  have idle: "timers (exec (play @ [Fire 0 3050]) initial) = []"
    unfolding play_def by code_simp
  have nr: "list_all (\<lambda>e. \<not> is_reset e) [Flip 3 4000, Fire 0 4100, Flip 20 4200]" by simp
  note r1 = elapsed_fixed_at_completion [OF wf(2) pos(2), of "(-)" "Fire 0 3050"]
  note r2 = elapsed_fixed_at_completion [OF wf(1) pos(1), of "(-)" "Fire 0 3050"
      "[Flip 3 4000, Fire 0 4100, Flip 20 4200]"]
  have none: "elapsedMs (-) (exec play initial) = None"
    using r1 inc by blast
  have fin: "finishedAt (apply_event (Fire 0 3050) (exec play initial)) = Some (time_of (Fire 0 3050))"
    using r1 inc com by blast
  have "\<exists>b f. startedAt (exec (play @ [Fire 0 3050]) initial) = Some b \<and>
      finishedAt (exec (play @ [Fire 0 3050]) initial) = Some f \<and>
      elapsedMs (-) (exec (play @ [Fire 0 3050]) initial) = Some \<lfloor>f - b + 1 / 2\<rfloor>"
    using r2 com' by blast
  then have el: "elapsedMs (-) (exec (play @ [Fire 0 3050]) initial) = Some 2950"
    unfolding st en by simp
  have stay: "exec [Flip 3 4000, Fire 0 4100, Flip 20 4200] (exec (play @ [Fire 0 3050]) initial) =
     exec (play @ [Fire 0 3050]) initial"
    using r2 com' idle nr by blast
  from wf(1) pos(1) inc none com fin com' st en el idle nr stay show ?thesis by (intro conjI)
qed

end
